theory Spec2Isabelle
  imports Main "HOL-Library.Multiset"
begin

section \<open>Errors: the error variables of common/converters.go\<close>

text \<open>
  Each package-level error variable is one value made by \<^verbatim>\<open>errors.New\<close>; Go compares
  such values by identity, so each variable is a constructor of its own. A Go value of type
  \<^verbatim>\<open>error\<close> is an \<open>error option\<close>, with \<open>None\<close> for \<^verbatim>\<open>nil\<close>.
\<close>

datatype error =
    ErrNotInFF
  | ErrNumOverflow
  | ErrNonceOverflow
  | ErrIdxOverflow
  | ErrBatchQueueEmpty
  | ErrTODO
  | ErrDone
  | Traced error

text \<open>
  Modelled from the spec: the package \<^verbatim>\<open>tracerr\<close> is imported by the sources and is not
  among them. The spec asks for one shared "operation was cancelled" error that the pool
  produces and that callers recognise, and the comment of \<^verbatim>\<open>IsErrDone\<close> speaks of "the error
  or wrapped (with tracerr) error". So \<open>tracerr_Wrap\<close> attaches a trace to an error that
  has none (\<open>Traced\<close>; the stack frames themselves are left out) and keeps \<^verbatim>\<open>nil\<close> and an
  already traced error as they are, and \<open>tracerr_Unwrap\<close> gives back the error under the
  trace.
\<close>

definition tracerr_Wrap :: "error option \<Rightarrow> error option" where
  "tracerr_Wrap err =
     (case err of
        None \<Rightarrow> None
      | Some (Traced e) \<Rightarrow> Some (Traced e)
      | Some e \<Rightarrow> Some (Traced e))"

definition tracerr_Unwrap :: "error option \<Rightarrow> error option" where
  "tracerr_Unwrap err =
     (case err of
        None \<Rightarrow> None
      | Some (Traced e) \<Rightarrow> Some e
      | Some e \<Rightarrow> Some e)"

text \<open>\<^verbatim>\<open>func IsErrDone(err error) bool { return tracerr.Unwrap(err) == ErrDone }\<close>\<close>

definition IsErrDone :: "error option \<Rightarrow> bool" where
  "IsErrDone err = (tracerr_Unwrap err = Some ErrDone)"


section \<open>Go channels\<close>

text \<open>
  A value of the interface type \<^verbatim>\<open>prover.Client\<close> is \<open>'h option\<close>: \<open>None\<close> is the \<^verbatim>\<open>nil\<close>
  interface value, \<open>Some h\<close> a client. The pool never looks inside a client.

  A channel made by \<^verbatim>\<open>make(chan T, n)\<close> has a fixed capacity and a queue of the values sent
  and not yet received. \<^verbatim>\<open>make\<close> panics at run time ("makechan: size out of range") when
  the size is negative, and also when the buffer of \<open>n\<close> elements would not fit under the
  run-time's limit for one allocation:

  \<^verbatim>\<open>mem, overflow := math.MulUintptr(elem.size, uintptr(size))
  if overflow || mem > maxAlloc-hchanSize || size < 0 { panic(...) }\<close>

  The run-time is not among the sources. The constants below are its values on a 64-bit
  platform such as linux/amd64: a heap of at most \<open>2 ^ 48\<close> bytes, a channel header of 96
  bytes, and two 8-byte words for a value of an interface type such as \<^verbatim>\<open>prover.Client\<close>.
  The size is a Go \<^verbatim>\<open>int\<close>, here an \<open>int\<close>; the product is taken without wrap-around, so
  a product that overflows the machine word is over the limit too, and so is every size
  beyond the range of a 64-bit \<^verbatim>\<open>int\<close>. (A size that passes this check can still exhaust the
  memory of the machine; the process then dies. That is not part of this model.)
\<close>

type_synonym 'h client = "'h option"

record 'a chan =
  chan_cap :: nat
  chan_buf :: "'a list"

datatype panic = MakechanSizeOutOfRange

definition maxAlloc :: int where
  "maxAlloc = 2 ^ 48"

definition hchanSize :: int where
  "hchanSize = 96"

definition client_size :: int where
  "client_size = 16"

definition make_chan :: "int \<Rightarrow> int \<Rightarrow> panic + 'a chan" where
  "make_chan elem_size n =
     (if maxAlloc - hchanSize < elem_size * n \<or> n < 0 then Inl MakechanSizeOutOfRange
      else Inr \<lparr>chan_cap = nat n, chan_buf = []\<rparr>)"

text \<open>A send into the buffer can proceed when the buffer has room; it appends.\<close>

definition chan_send :: "'a chan \<Rightarrow> 'a \<Rightarrow> 'a chan" where
  "chan_send c v = c\<lparr>chan_buf := chan_buf c @ [v]\<rparr>"


section \<open>The pool: coordinator/proverspool.go\<close>

record 'h ProversPool =
  pool :: "'h client chan"

text \<open>
  \<^verbatim>\<open>func NewProversPool(maxServerProofs int) *ProversPool {
      return &ProversPool{ pool: make(chan prover.Client, maxServerProofs) } }\<close>
\<close>

definition NewProversPool :: "int \<Rightarrow> panic + 'h ProversPool" where
  "NewProversPool maxServerProofs =
     (case make_chan client_size maxServerProofs of
        Inl e \<Rightarrow> Inl e
      | Inr c \<Rightarrow> Inr \<lparr>pool = c\<rparr>)"

text \<open>
  A \<^verbatim>\<open>select\<close> statement runs one of its cases that can proceed; when several can, Go
  picks one of them at random; when none can, the goroutine blocks until one can. \<open>Add\<close>
  and \<open>Get\<close> therefore return the list of the results the call can complete with at this
  moment, one for each case that can proceed, in the order of the source. The empty
  list is a blocked call; a blocked call is the same call looked at again once the pool or
  its context has changed. The argument \<open>ctx_done\<close> tells whether the channel
  \<^verbatim>\<open>ctx.Done()\<close> of the context is closed at this moment. The receiver is a pool built
  by \<open>NewProversPool\<close> and the context is not nil: a call on a nil pool or with a nil
  context panics before the \<^verbatim>\<open>select\<close> is reached.

  \<^verbatim>\<open>func (p *ProversPool) Add(ctx context.Context, serverProof prover.Client) {
      select {
      case p.pool <- serverProof:
      case <-ctx.Done():
      } }\<close>

  \<open>Add\<close> has no result of its own: \<open>add_case\<close> records which case ran.
\<close>

datatype add_case = AddSent | AddCtxDone

definition Add :: "bool \<Rightarrow> 'h client \<Rightarrow> 'h ProversPool \<Rightarrow> (add_case \<times> 'h ProversPool) list" where
  "Add ctx_done serverProof p =
     (if length (chan_buf (pool p)) < chan_cap (pool p)
      then [(AddSent, p\<lparr>pool := chan_send (pool p) serverProof\<rparr>)] else []) @
     (if ctx_done then [(AddCtxDone, p)] else [])"

text \<open>
  \<^verbatim>\<open>func (p *ProversPool) Get(ctx context.Context) (prover.Client, error) {
      select {
      case <-ctx.Done():
          log.Info("ServerProofPool.Get done")
          return nil, tracerr.Wrap(common.ErrDone)
      case serverProof := <-p.pool:
          return serverProof, nil
      } }\<close>

  The result of \<open>Get\<close> is the pair the Go function returns (the log line is left out).
\<close>

type_synonym 'h get_result = "'h client \<times> error option"

definition Get :: "bool \<Rightarrow> 'h ProversPool \<Rightarrow> ('h get_result \<times> 'h ProversPool) list" where
  "Get ctx_done p =
     (if ctx_done then [((None, tracerr_Wrap (Some ErrDone)), p)] else []) @
     (case chan_buf (pool p) of
        [] \<Rightarrow> []
      | serverProof # rest \<Rightarrow>
          [((serverProof, None), p\<lparr>pool := (pool p)\<lparr>chan_buf := rest\<rparr>\<rparr>)])"

text \<open>
  A send also proceeds when a receiver is blocked on the channel, and this is the only way
  a value passes through a channel of capacity 0: the send case of a pending \<open>Add\<close> and the
  receive case of a pending \<open>Get\<close> run together, and the value goes to the receiver without
  entering the buffer. A receiver blocks only on an empty buffer.
\<close>

definition handoff :: "'h client \<Rightarrow> 'h ProversPool \<Rightarrow> ('h get_result \<times> 'h ProversPool) option" where
  "handoff serverProof p =
     (if chan_buf (pool p) = [] then Some ((serverProof, None), p) else None)"


section \<open>Concurrent runs\<close>

text \<open>
  Channel operations are atomic, so a concurrent run of the pool is an interleaving of
  completed calls. An \<open>op\<close> is one completed call with the case it completed through:
  \<open>OpAdd ctx_done h c\<close> a call of \<open>Add\<close>, \<open>OpGet ctx_done r\<close> a call of \<open>Get\<close> that returned
  \<open>r\<close>, \<open>OpHandoff h\<close> an \<open>Add\<close> of \<open>h\<close> and a \<open>Get\<close> completing together, and \<open>OpDiscard h\<close>
  a worker that drops a client it holds instead of giving it back.

  Next to the pool the \<open>system\<close> keeps the callers' books, which the pool itself does not
  have: \<open>held\<close>, the clients checked out (returned by a \<open>Get\<close> and not yet sent back or
  dropped), \<open>added\<close>, the number of clients that came into the pool from outside, and
  \<open>discarded\<close>. The pool has no release operation: a worker gives a client back with \<open>Add\<close>,
  so a send of a client that is held is its release, and any other send is an addition.
\<close>

datatype 'h op =
    OpAdd bool "'h client" add_case
  | OpGet bool "'h get_result"
  | OpHandoff "'h client"
  | OpDiscard "'h client"

record 'h system =
  ppool :: "'h ProversPool"
  held :: "'h client list"
  added :: nat
  discarded :: nat

definition put_back :: "'h client \<Rightarrow> 'h system \<Rightarrow> 'h system" where
  "put_back h s =
     (if h \<in> set (held s) then s\<lparr>held := remove1 h (held s)\<rparr>
      else s\<lparr>added := Suc (added s)\<rparr>)"

fun step :: "'h system \<Rightarrow> 'h op \<Rightarrow> 'h system option" where
  "step s (OpAdd ctx_done h c) =
     (case map_of (Add ctx_done h (ppool s)) c of
        None \<Rightarrow> None
      | Some p' \<Rightarrow>
          Some (if c = AddSent then (put_back h s)\<lparr>ppool := p'\<rparr> else s\<lparr>ppool := p'\<rparr>))"
| "step s (OpGet ctx_done r) =
     (case map_of (Get ctx_done (ppool s)) r of
        None \<Rightarrow> None
      | Some p' \<Rightarrow>
          Some (if snd r = None then s\<lparr>ppool := p', held := fst r # held s\<rparr>
                else s\<lparr>ppool := p'\<rparr>))"
| "step s (OpHandoff h) =
     (case handoff h (ppool s) of
        None \<Rightarrow> None
      | Some (r, p') \<Rightarrow>
          Some ((put_back h s)\<lparr>ppool := p', held := fst r # held (put_back h s)\<rparr>))"
| "step s (OpDiscard h) =
     (if h \<in> set (held s)
      then Some (s\<lparr>held := remove1 h (held s), discarded := Suc (discarded s)\<rparr>)
      else None)"

fun exec :: "'h system \<Rightarrow> 'h op list \<Rightarrow> 'h system option" where
  "exec s [] = Some s"
| "exec s (e # es) = (case step s e of None \<Rightarrow> None | Some s' \<Rightarrow> exec s' es)"

definition init :: "'h ProversPool \<Rightarrow> 'h system" where
  "init p = \<lparr>ppool = p, held = [], added = 0, discarded = 0\<rparr>"

abbreviation available :: "'h system \<Rightarrow> 'h client list" where
  "available s \<equiv> chan_buf (pool (ppool s))"

abbreviation capacity :: "'h system \<Rightarrow> nat" where
  "capacity s \<equiv> chan_cap (pool (ppool s))"

text \<open>
  The clients a run sent into the channel and the clients it delivered to a \<open>Get\<close>, in
  the order of the run. A handoff is both a send and a delivery.
\<close>

fun sent :: "'h op list \<Rightarrow> 'h client list" where
  "sent [] = []"
| "sent (OpAdd d h AddSent # tr) = h # sent tr"
| "sent (OpHandoff h # tr) = h # sent tr"
| "sent (e # tr) = sent tr"

fun received :: "'h op list \<Rightarrow> 'h client list" where
  "received [] = []"
| "received (OpGet d (h, None) # tr) = h # received tr"
| "received (OpHandoff h # tr) = h # received tr"
| "received (e # tr) = received tr"

text \<open>
  \<open>no_double_add\<close> holds of a run in which no \<open>Add\<close> puts into the buffer a client that
  is in the buffer already (a client added twice, or released twice).
\<close>

fun sends_unbuffered :: "'h system \<Rightarrow> 'h op \<Rightarrow> bool" where
  "sends_unbuffered s (OpAdd d h AddSent) = (h \<notin> set (available s))"
| "sends_unbuffered s e = True"

fun no_double_add :: "'h system \<Rightarrow> 'h op list \<Rightarrow> bool" where
  "no_double_add s [] = True"
| "no_double_add s (e # tr) =
     (sends_unbuffered s e \<and>
      (case step s e of None \<Rightarrow> True | Some s' \<Rightarrow> no_double_add s' tr))"

text \<open>
  What the calls of \<open>Get\<close> that completed in a run returned: the result of each \<open>OpGet\<close>,
  and for each handoff the result \<open>handoff\<close> gives to the \<open>Get\<close> that took part in it.
\<close>

fun get_results :: "'h op list \<Rightarrow> 'h get_result list" where
  "get_results [] = []"
| "get_results (OpGet d r # tr) = r # get_results tr"
| "get_results (OpHandoff h # tr) = (h, None) # get_results tr"
| "get_results (e # tr) = get_results tr"


section \<open>The calls, one at a time\<close>

lemma NewProversPool_Inr:
  "NewProversPool n = Inr p \<longleftrightarrow>
     0 \<le> n \<and> n \<le> 2 ^ 44 - 6 \<and> p = \<lparr>pool = \<lparr>chan_cap = nat n, chan_buf = []\<rparr>\<rparr>"
  by (auto simp: NewProversPool_def make_chan_def maxAlloc_def hchanSize_def client_size_def)

lemma Wrap_ErrDone: "tracerr_Wrap (Some ErrDone) = Some (Traced ErrDone)"
  by (simp add: tracerr_Wrap_def)

lemma Get_outcome:
  "(r, p') \<in> set (Get ctx_done p) \<longleftrightarrow>
     (ctx_done \<and> r = (None, Some (Traced ErrDone)) \<and> p' = p) \<or>
     (\<exists>h rest. chan_buf (pool p) = h # rest \<and> r = (h, None) \<and>
        p' = p\<lparr>pool := (pool p)\<lparr>chan_buf := rest\<rparr>\<rparr>)"
  by (cases "chan_buf (pool p)") (auto simp: Get_def Wrap_ErrDone)

lemma Add_outcome:
  "(c, p') \<in> set (Add ctx_done h p) \<longleftrightarrow>
     (c = AddSent \<and> length (chan_buf (pool p)) < chan_cap (pool p) \<and>
        p' = p\<lparr>pool := chan_send (pool p) h\<rparr>) \<or>
     (c = AddCtxDone \<and> ctx_done \<and> p' = p)"
  by (auto simp: Add_def)


section \<open>Steps and runs\<close>

lemma ppool_put_back [simp]: "ppool (put_back h s) = ppool s"
  by (simp add: put_back_def)

lemma step_OpAdd_Sent:
  "step s (OpAdd d h AddSent) = Some s' \<longleftrightarrow>
     length (available s) < capacity s \<and>
     s' = (put_back h s)\<lparr>ppool := (ppool s)\<lparr>pool := chan_send (pool (ppool s)) h\<rparr>\<rparr>"
  by (auto simp: Add_def)

lemma step_OpAdd_Done: "step s (OpAdd d h AddCtxDone) = Some s' \<longleftrightarrow> d \<and> s' = s"
  by (auto simp: Add_def)

lemma step_OpGet:
  "step s (OpGet d r) = Some s' \<longleftrightarrow>
     (d \<and> r = (None, Some (Traced ErrDone)) \<and> s' = s) \<or>
     (\<exists>h rest. available s = h # rest \<and> r = (h, None) \<and>
        s' = s\<lparr>ppool := (ppool s)\<lparr>pool := (pool (ppool s))\<lparr>chan_buf := rest\<rparr>\<rparr>,
               held := h # held s\<rparr>)"
  by (cases "available s"; cases r) (auto simp: Get_def Wrap_ErrDone)

lemma step_OpHandoff:
  "step s (OpHandoff h) = Some s' \<longleftrightarrow>
     available s = [] \<and> s' = (put_back h s)\<lparr>held := h # held (put_back h s)\<rparr>"
  by (auto simp: handoff_def)

lemma step_OpDiscard:
  "step s (OpDiscard h) = Some s' \<longleftrightarrow>
     h \<in> set (held s) \<and> s' = s\<lparr>held := remove1 h (held s), discarded := Suc (discarded s)\<rparr>"
  by auto

lemmas step_iff = step_OpAdd_Sent step_OpAdd_Done step_OpGet step_OpHandoff step_OpDiscard

lemma op_cases:
  obtains (add_sent) d h where "e = OpAdd d h AddSent"
  | (add_done) d h where "e = OpAdd d h AddCtxDone"
  | (get) d r where "e = OpGet d r"
  | (handoff) h where "e = OpHandoff h"
  | (discard) h where "e = OpDiscard h"
proof (cases e)
  case (OpAdd d h c)
  then show ?thesis using add_sent add_done by (cases c) auto
qed (auto intro: get handoff discard)

lemma exec_append:
  "exec s (xs @ ys) = (case exec s xs of None \<Rightarrow> None | Some s' \<Rightarrow> exec s' ys)"
  by (induction xs arbitrary: s) (auto split: option.splits)

lemma step_bounded:
  assumes "step s e = Some s'" and "length (available s) \<le> capacity s"
  shows "length (available s') \<le> capacity s' \<and> capacity s' = capacity s"
  using assms by (cases e rule: op_cases) (auto simp: step_iff chan_send_def put_back_def simp del: step.simps)

lemma exec_bounded:
  assumes "exec s tr = Some s'" and "length (available s) \<le> capacity s"
  shows "length (available s') \<le> capacity s' \<and> capacity s' = capacity s"
  using assms
proof (induction tr arbitrary: s)
  case Nil
  then show ?case by simp
next
  case (Cons e tr)
  from Cons.prems(1) obtain t where t: "step s e = Some t" and r: "exec t tr = Some s'"
    by (auto split: option.splits)
  from step_bounded [OF t Cons.prems(2)] Cons.IH [OF r] show ?case by simp
qed

lemma length_remove1_mem: "x \<in> set xs \<Longrightarrow> Suc (length (remove1 x xs)) = length xs"
  by (induction xs) auto

lemma step_conserved:
  assumes "step s e = Some s'"
    and "length (available s) + length (held s) + discarded s = added s"
  shows "length (available s') + length (held s') + discarded s' = added s'"
  using assms
  by (cases e rule: op_cases)
    (auto simp: step_iff chan_send_def put_back_def simp del: step.simps dest: length_remove1_mem)

lemma exec_conserved:
  assumes "exec s tr = Some s'"
    and "length (available s) + length (held s) + discarded s = added s"
  shows "length (available s') + length (held s') + discarded s' = added s'"
  using assms
proof (induction tr arbitrary: s)
  case Nil
  then show ?case by simp
next
  case (Cons e tr)
  from Cons.prems(1) obtain t where t: "step s e = Some t" and r: "exec t tr = Some s'"
    by (auto split: option.splits)
  from Cons.IH [OF r step_conserved [OF t Cons.prems(2)]] show ?case .
qed

lemma sent_Cons: "sent (e # tr) = sent [e] @ sent tr"
  by (cases e rule: op_cases) simp_all

lemma received_Cons: "received (e # tr) = received [e] @ received tr"
proof (cases e)
  case (OpGet d r)
  then show ?thesis by (cases r; cases "snd r") simp_all
qed simp_all

lemma step_moves:
  assumes "step s e = Some s'"
  shows "mset (available s) + mset (sent [e]) = mset (available s') + mset (received [e])"
proof (cases e rule: op_cases)
  case (add_sent d h)
  with assms show ?thesis by (simp add: step_OpAdd_Sent chan_send_def del: step.simps)
next
  case (add_done d h)
  with assms show ?thesis by (simp add: step_OpAdd_Done del: step.simps)
next
  case (get d r)
  with assms show ?thesis by (auto simp: step_OpGet simp del: step.simps)
next
  case (handoff h)
  with assms show ?thesis by (simp add: step_OpHandoff del: step.simps)
next
  case (discard h)
  with assms show ?thesis by (simp add: step_OpDiscard del: step.simps)
qed

lemma exec_moves:
  assumes "exec s tr = Some s'"
  shows "mset (available s) + mset (sent tr) = mset (available s') + mset (received tr)"
  using assms
proof (induction tr arbitrary: s)
  case Nil
  then show ?case by simp
next
  case (Cons e tr)
  from Cons.prems(1) obtain t where t: "step s e = Some t" and r: "exec t tr = Some s'"
    by (auto split: option.splits)
  have "mset (available s) + mset (sent (e # tr)) =
        (mset (available s) + mset (sent [e])) + mset (sent tr)"
    by (subst sent_Cons) simp
  also have "\<dots> = (mset (available t) + mset (sent tr)) + mset (received [e])"
    using step_moves [OF t] by (simp add: ac_simps)
  also have "\<dots> = (mset (available s') + mset (received tr)) + mset (received [e])"
    by (simp only: Cons.IH [OF r])
  also have "\<dots> = mset (available s') + mset (received (e # tr))"
    by (subst (2) received_Cons) simp
  finally show ?case .
qed

lemma step_distinct:
  assumes "step s e = Some s'" and "sends_unbuffered s e"
    and "distinct (available s @ held s)"
  shows "distinct (available s' @ held s')"
proof (cases e rule: op_cases)
  case (add_sent d h)
  with assms show ?thesis
    by (auto simp: step_OpAdd_Sent chan_send_def put_back_def simp del: step.simps
        dest: notin_set_remove1)
next
  case (add_done d h)
  with assms show ?thesis by (simp add: step_OpAdd_Done del: step.simps)
next
  case (get d r)
  with assms show ?thesis by (auto simp: step_OpGet simp del: step.simps)
next
  case (handoff h)
  with assms show ?thesis
    by (auto simp: step_OpHandoff put_back_def simp del: step.simps)
next
  case (discard h)
  with assms show ?thesis
    by (auto simp: step_OpDiscard simp del: step.simps dest: notin_set_remove1)
qed

lemma exec_distinct:
  assumes "exec s tr = Some s'" and "no_double_add s tr"
    and "distinct (available s @ held s)"
  shows "distinct (available s' @ held s')"
  using assms
proof (induction tr arbitrary: s)
  case Nil
  then show ?case by simp
next
  case (Cons e tr)
  from Cons.prems(1) obtain t where t: "step s e = Some t" and r: "exec t tr = Some s'"
    by (auto split: option.splits)
  from Cons.prems(2) t have u: "sends_unbuffered s e" and n: "no_double_add t tr"
    by simp_all
  from Cons.IH [OF r n step_distinct [OF t u Cons.prems(3)]] show ?case .
qed

lemma exec_adds:
  assumes "length (available s) + length hs \<le> capacity s"
  shows "\<exists>s'. exec s (map (\<lambda>h. OpAdd False h AddSent) hs) = Some s' \<and>
           available s' = available s @ hs \<and> capacity s' = capacity s"
  using assms
proof (induction hs arbitrary: s)
  case Nil
  then show ?case by simp
next
  case (Cons h hs)
  define t where "t = (put_back h s)\<lparr>ppool := (ppool s)\<lparr>pool := chan_send (pool (ppool s)) h\<rparr>\<rparr>"
  from Cons.prems have st: "step s (OpAdd False h AddSent) = Some t"
    by (simp add: step_OpAdd_Sent t_def del: step.simps)
  have av: "available t = available s @ [h]" and cp: "capacity t = capacity s"
    by (simp_all add: t_def chan_send_def)
  from Cons.prems av cp have "length (available t) + length hs \<le> capacity t" by simp
  from Cons.IH [OF this] obtain s' where
    "exec t (map (\<lambda>h. OpAdd False h AddSent) hs) = Some s'"
    "available s' = available t @ hs" "capacity s' = capacity t"
    by blast
  with st av cp show ?case by simp
qed

lemma exec_gets:
  assumes "available s = hs @ rest"
  shows "\<exists>s'. exec s (map (\<lambda>h. OpGet False (h, None)) hs) = Some s' \<and> available s' = rest"
  using assms
proof (induction hs arbitrary: s)
  case Nil
  then show ?case by simp
next
  case (Cons h hs)
  define t where "t = s\<lparr>ppool := (ppool s)\<lparr>pool := (pool (ppool s))\<lparr>chan_buf := hs @ rest\<rparr>\<rparr>,
                         held := h # held s\<rparr>"
  from Cons.prems have st: "step s (OpGet False (h, None)) = Some t"
    by (simp add: step_OpGet t_def del: step.simps)
  have "available t = hs @ rest" by (simp add: t_def)
  from Cons.IH [OF this] st show ?case by simp
qed

lemma exec_gets_results:
  assumes "exec s (map (OpGet False) rs) = Some s'"
  shows "rs = map (\<lambda>h. (h, None)) (take (length rs) (available s)) \<and>
         length rs \<le> length (available s)"
  using assms
proof (induction rs arbitrary: s)
  case Nil
  then show ?case by simp
next
  case (Cons r rs)
  from Cons.prems obtain t where t: "step s (OpGet False r) = Some t"
    and e: "exec t (map (OpGet False) rs) = Some s'"
    by (auto split: option.splits)
  from t obtain h rest where a: "available s = h # rest" and r: "r = (h, None)"
    and av: "available t = rest"
    by (auto simp: step_OpGet simp del: step.simps)
  from Cons.IH [OF e] av a r show ?case by simp
qed


lemma received_from_sent:
  assumes "exec s tr = Some s'"
  shows "set (received tr) \<subseteq> set (available s) \<union> set (sent tr)"
proof -
  from exec_moves [OF assms]
  have "set_mset (mset (available s) + mset (sent tr)) =
        set_mset (mset (available s') + mset (received tr))"
    by simp
  then show ?thesis by auto
qed

lemma get_results_shape:
  assumes "exec s tr = Some s'" and "r \<in> set (get_results tr)"
  shows "r = (None, Some (Traced ErrDone)) \<or> (snd r = None \<and> fst r \<in> set (received tr))"
  using assms
proof (induction tr arbitrary: s)
  case Nil
  then show ?case by simp
next
  case (Cons e tr)
  from Cons.prems(1) obtain t where t: "step s e = Some t" and x: "exec t tr = Some s'"
    by (auto split: option.splits)
  show ?case
  proof (cases "r \<in> set (get_results tr)")
    case True
    from Cons.IH [OF x True] show ?thesis
      by (auto simp: received_Cons [of e tr])
  next
    case False
    show ?thesis
    proof (cases e rule: op_cases)
      case (get d r0)
      with False Cons.prems(2) have "r0 = r" by simp
      with t get show ?thesis by (auto simp: step_OpGet simp del: step.simps)
    next
      case (handoff h)
      with False Cons.prems(2) show ?thesis by simp
    qed (use False Cons.prems(2) in simp_all)
  qed
qed


section \<open>The properties of the pool\<close>

text \<open>
  C1, as stated, fails when the same client is added twice: two calls of \<open>Get\<close> then hold it
  at once, with no return in between. The pool does not compare the clients it stores.
\<close>

theorem same_handle_twice_counterexample:
  "(NewProversPool 2 :: panic + nat ProversPool) = Inr \<lparr>pool = \<lparr>chan_cap = 2, chan_buf = []\<rparr>\<rparr> \<and>
   exec (init \<lparr>pool = \<lparr>chan_cap = 2, chan_buf = []\<rparr>\<rparr>)
      [OpAdd False (Some (1::nat)) AddSent, OpAdd False (Some 1) AddSent,
       OpGet False (Some 1, None), OpGet False (Some 1, None)]
     = Some \<lparr>ppool = \<lparr>pool = \<lparr>chan_cap = 2, chan_buf = []\<rparr>\<rparr>, held = [Some 1, Some 1],
             added = 2, discarded = 0\<rparr> \<and>
   \<not> distinct [Some (1::nat), Some 1]"
  by (simp add: NewProversPool_def make_chan_def maxAlloc_def hchanSize_def client_size_def init_def Add_def Get_def chan_send_def
      put_back_def)

text \<open>
  C1, amended. In every run from an empty pool, the clients sent are exactly those still in
  the buffer together with those delivered: every value sent into the pool is received by
  at most one \<open>Get\<close>, and nothing is received that was not sent. If moreover no \<open>Add\<close>
  sends a client that is already in the buffer, the clients checked out have no duplicates
  and none of them is in the buffer. Every prefix of a run is a run, so this holds at every
  instant.
\<close>

theorem each_send_received_once:
  assumes "chan_buf (pool p0) = []" and "exec (init p0) tr = Some s"
  shows "mset (sent tr) = mset (available s) + mset (received tr) \<and>
         (no_double_add (init p0) tr \<longrightarrow> distinct (held s) \<and> distinct (available s @ held s))"
proof -
  from assms(1) have e: "available (init p0) = []" and h: "held (init p0) = []"
    by (simp_all add: init_def)
  from exec_moves [OF assms(2)] e
  have m: "mset (sent tr) = mset (available s) + mset (received tr)" by simp
  from e h have d: "distinct (available (init p0) @ held (init p0))" by simp
  have "distinct (available s @ held s)" if "no_double_add (init p0) tr"
    using exec_distinct [OF assms(2) that d] .
  with m show ?thesis by simp
qed

theorem each_send_received_once_witness:
  "chan_buf (pool \<lparr>pool = \<lparr>chan_cap = 1, chan_buf = ([] :: nat option list)\<rparr>\<rparr>) = [] \<and>
   exec (init \<lparr>pool = \<lparr>chan_cap = 1, chan_buf = []\<rparr>\<rparr>)
      [OpAdd False (Some (1::nat)) AddSent, OpGet False (Some 1, None),
       OpAdd False (Some 2) AddSent, OpGet True (None, Some (Traced ErrDone)),
       OpGet False (Some 2, None), OpHandoff (Some 1)]
     = Some \<lparr>ppool = \<lparr>pool = \<lparr>chan_cap = 1, chan_buf = []\<rparr>\<rparr>, held = [Some 1, Some 2],
             added = 2, discarded = 0\<rparr> \<and>
   no_double_add (init \<lparr>pool = \<lparr>chan_cap = 1, chan_buf = []\<rparr>\<rparr>)
      [OpAdd False (Some (1::nat)) AddSent, OpGet False (Some 1, None),
       OpAdd False (Some 2) AddSent, OpGet True (None, Some (Traced ErrDone)),
       OpGet False (Some 2, None), OpHandoff (Some 1)] \<and>
   distinct [Some (1::nat), Some 2]"
proof -
  let ?P = "\<lparr>pool = \<lparr>chan_cap = 1, chan_buf = []\<rparr>\<rparr> :: nat ProversPool"
  let ?tr = "[OpAdd False (Some (1::nat)) AddSent, OpGet False (Some 1, None),
       OpAdd False (Some 2) AddSent, OpGet True (None, Some (Traced ErrDone)),
       OpGet False (Some 2, None), OpHandoff (Some 1)]"
  let ?s = "\<lparr>ppool = ?P, held = [Some (1::nat), Some 2], added = 2, discarded = 0\<rparr>"
  have e: "chan_buf (pool ?P) = []" by simp
  have ex: "exec (init ?P) ?tr = Some ?s"
    by (simp add: init_def Add_def Get_def chan_send_def put_back_def handoff_def
        tracerr_Wrap_def)
  have nd: "no_double_add (init ?P) ?tr"
    by (simp add: init_def Add_def Get_def chan_send_def put_back_def handoff_def
        tracerr_Wrap_def)
  from each_send_received_once [OF e ex] nd have "distinct (held ?s)" by blast
  then have "distinct [Some (1::nat), Some 2]" by simp
  with e ex nd show ?thesis by (intro conjI)
qed

text \<open>
  C2, as stated, fails: the capacity bounds the buffer only. With capacity 1, after one
  client is added and checked out, a second \<open>Add\<close> does not block, and then two clients
  are resident (one available, one checked out).
\<close>

theorem capacity_counts_held_counterexample:
  "(NewProversPool 1 :: panic + nat ProversPool) = Inr \<lparr>pool = \<lparr>chan_cap = 1, chan_buf = []\<rparr>\<rparr> \<and>
   exec (init \<lparr>pool = \<lparr>chan_cap = 1, chan_buf = []\<rparr>\<rparr>)
      [OpAdd False (Some (1::nat)) AddSent, OpGet False (Some 1, None)]
     = Some \<lparr>ppool = \<lparr>pool = \<lparr>chan_cap = 1, chan_buf = []\<rparr>\<rparr>, held = [Some 1],
             added = 1, discarded = 0\<rparr> \<and>
   Add False (Some (2::nat)) \<lparr>pool = \<lparr>chan_cap = 1, chan_buf = []\<rparr>\<rparr>
     = [(AddSent, \<lparr>pool = \<lparr>chan_cap = 1, chan_buf = [Some 2]\<rparr>\<rparr>)] \<and>
   exec (init \<lparr>pool = \<lparr>chan_cap = 1, chan_buf = []\<rparr>\<rparr>)
      [OpAdd False (Some (1::nat)) AddSent, OpGet False (Some 1, None),
       OpAdd False (Some 2) AddSent]
     = Some \<lparr>ppool = \<lparr>pool = \<lparr>chan_cap = 1, chan_buf = [Some 2]\<rparr>\<rparr>, held = [Some 1],
             added = 2, discarded = 0\<rparr> \<and>
   length [Some (2::nat)] + length [Some (1::nat)] > 1"
  by (simp add: NewProversPool_def make_chan_def maxAlloc_def hchanSize_def client_size_def init_def Add_def Get_def chan_send_def
      put_back_def)

text \<open>
  C2, amended. In every run of a pool built with capacity \<open>n\<close>, the clients available plus
  the clients checked out plus the clients discarded are the clients added (a release of a
  client that is checked out is not an addition); the number available never exceeds \<open>n\<close>
  and the capacity stays \<open>n\<close>; and no case of \<open>Add\<close> can proceed on the pool exactly
  when the signal has not fired and \<open>n\<close> clients are available in the buffer, whatever
  the number checked out (a \<open>Get\<close> blocked on the empty buffer can still take the
  client directly, see \<open>handoff\<close>).
\<close>

theorem handles_conserved_buffer_bounded:
  assumes "NewProversPool n = Inr p0" and "exec (init p0) tr = Some s"
  shows "length (available s) + length (held s) + discarded s = added s \<and>
         int (length (available s)) \<le> n \<and> int (capacity s) = n \<and>
         (Add ctx_done h (ppool s) = [] \<longleftrightarrow> \<not> ctx_done \<and> int (length (available s)) = n)"
proof -
  from assms(1) have i: "length (available (init p0)) \<le> capacity (init p0)"
    and c: "int (capacity (init p0)) = n"
    and k: "length (available (init p0)) + length (held (init p0)) + discarded (init p0)
              = added (init p0)"
    by (auto simp: NewProversPool_Inr init_def)
  from exec_bounded [OF assms(2) i] c
  have b: "length (available s) \<le> capacity s" and c': "int (capacity s) = n" by simp_all
  have a: "Add ctx_done h (ppool s) = [] \<longleftrightarrow> \<not> ctx_done \<and> int (length (available s)) = n"
    using b c' by (auto simp: Add_def)
  from exec_conserved [OF assms(2) k] b c' a show ?thesis by simp
qed

theorem handles_conserved_buffer_bounded_witness:
  "(NewProversPool 1 :: panic + nat ProversPool) = Inr \<lparr>pool = \<lparr>chan_cap = 1, chan_buf = []\<rparr>\<rparr> \<and>
   exec (init \<lparr>pool = \<lparr>chan_cap = 1, chan_buf = []\<rparr>\<rparr>)
      [OpAdd False (Some (1::nat)) AddSent, OpGet False (Some 1, None),
       OpAdd False (Some 2) AddSent, OpDiscard (Some 1)]
     = Some \<lparr>ppool = \<lparr>pool = \<lparr>chan_cap = 1, chan_buf = [Some 2]\<rparr>\<rparr>, held = [],
             added = 2, discarded = 1\<rparr> \<and>
   Add False (Some (3::nat)) \<lparr>pool = \<lparr>chan_cap = 1, chan_buf = [Some 2]\<rparr>\<rparr> = []"
proof -
  let ?P = "\<lparr>pool = \<lparr>chan_cap = 1, chan_buf = []\<rparr>\<rparr> :: nat ProversPool"
  let ?s = "\<lparr>ppool = \<lparr>pool = \<lparr>chan_cap = 1, chan_buf = [Some (2::nat)]\<rparr>\<rparr>, held = [],
             added = 2, discarded = 1\<rparr>"
  have n: "NewProversPool 1 = Inr ?P"
    by (simp add: NewProversPool_def make_chan_def maxAlloc_def hchanSize_def client_size_def)
  have ex: "exec (init ?P) [OpAdd False (Some 1) AddSent, OpGet False (Some 1, None),
       OpAdd False (Some 2) AddSent, OpDiscard (Some 1)] = Some ?s"
    by (simp add: init_def Add_def Get_def chan_send_def put_back_def)
  from handles_conserved_buffer_bounded [OF n ex, of False "Some 3"]
  have "Add False (Some 3) \<lparr>pool = \<lparr>chan_cap = 1, chan_buf = [Some (2::nat)]\<rparr>\<rparr> = []"
    by simp
  with n ex show ?thesis by (intro conjI)
qed

text \<open>
  C3, as stated, fails when the signal has fired and a client is available: both cases
  of the \<open>select\<close> can proceed, and \<open>Get\<close> may return the cancellation instead of the
  client.
\<close>

theorem Get_ready_handle_counterexample:
  "Get True \<lparr>pool = \<lparr>chan_cap = 2, chan_buf = [Some (1::nat), Some 2]\<rparr>\<rparr> =
     [((None, Some (Traced ErrDone)), \<lparr>pool = \<lparr>chan_cap = 2, chan_buf = [Some 1, Some 2]\<rparr>\<rparr>),
      ((Some 1, None), \<lparr>pool = \<lparr>chan_cap = 2, chan_buf = [Some 2]\<rparr>\<rparr>)]"
  by (simp add: Get_def tracerr_Wrap_def)

text \<open>
  C3, amended. When the signal has not fired and a client is available, \<open>Get\<close> has one
  result: the client at the head of the buffer with a nil error, and the buffer without
  it. When none is available and the signal has not fired, no case can proceed: the call
  blocks. On an empty buffer with the signal fired the only result is the nil client with
  the wrapped \<open>ErrDone\<close>, the pool unchanged; on an empty buffer an \<open>Add\<close> hands its client
  directly to the blocked \<open>Get\<close>. When the signal has fired and a client is available,
  either result is possible.
\<close>

theorem Get_returns_or_blocks:
  "(\<not> ctx_done \<and> chan_buf (pool p) = h # rest \<longrightarrow>
      Get ctx_done p = [((h, None), p\<lparr>pool := (pool p)\<lparr>chan_buf := rest\<rparr>\<rparr>)]) \<and>
   (\<not> ctx_done \<and> chan_buf (pool p) = [] \<longrightarrow> Get ctx_done p = []) \<and>
   (ctx_done \<and> chan_buf (pool p) = [] \<longrightarrow>
      Get ctx_done p = [((None, tracerr_Wrap (Some ErrDone)), p)]) \<and>
   (ctx_done \<and> chan_buf (pool p) = h # rest \<longrightarrow>
      Get ctx_done p = [((None, tracerr_Wrap (Some ErrDone)), p),
                        ((h, None), p\<lparr>pool := (pool p)\<lparr>chan_buf := rest\<rparr>\<rparr>)]) \<and>
   (chan_buf (pool p) = [] \<longrightarrow> handoff h p = Some ((h, None), p)) \<and>
   tracerr_Wrap (Some ErrDone) \<noteq> None"
  by (simp add: Get_def handoff_def tracerr_Wrap_def)

theorem Get_returns_or_blocks_witness:
  "Get False \<lparr>pool = \<lparr>chan_cap = 2, chan_buf = [Some (1::nat), Some 2]\<rparr>\<rparr> =
     [((Some 1, None), \<lparr>pool = \<lparr>chan_cap = 2, chan_buf = [Some 2]\<rparr>\<rparr>)] \<and>
   Get False \<lparr>pool = \<lparr>chan_cap = 2, chan_buf = ([] :: nat option list)\<rparr>\<rparr> = [] \<and>
   Get True \<lparr>pool = \<lparr>chan_cap = 2, chan_buf = ([] :: nat option list)\<rparr>\<rparr> =
     [((None, Some (Traced ErrDone)), \<lparr>pool = \<lparr>chan_cap = 2, chan_buf = []\<rparr>\<rparr>)] \<and>
   handoff (Some (3::nat)) \<lparr>pool = \<lparr>chan_cap = 2, chan_buf = []\<rparr>\<rparr> =
     Some ((Some 3, None), \<lparr>pool = \<lparr>chan_cap = 2, chan_buf = []\<rparr>\<rparr>)"
  using Get_returns_or_blocks [of False
      "\<lparr>pool = \<lparr>chan_cap = 2, chan_buf = [Some (1::nat), Some 2]\<rparr>\<rparr>" "Some 1" "[Some 2]"]
    Get_returns_or_blocks [of False
      "\<lparr>pool = \<lparr>chan_cap = 2, chan_buf = ([] :: nat option list)\<rparr>\<rparr>" "Some 3" "[]"]
    Get_returns_or_blocks [of True
      "\<lparr>pool = \<lparr>chan_cap = 2, chan_buf = ([] :: nat option list)\<rparr>\<rparr>" "Some 3" "[]"]
  by (simp add: tracerr_Wrap_def)

text \<open>
  C4. A \<open>Get\<close> that returns an error returns the nil client, had its signal fired and
  leaves the pool as it was; an \<open>Add\<close> that ran its cancellation case had its signal
  fired and leaves the pool as it was; and when the signal has fired \<open>Add\<close> can return
  through that case. \<open>Add\<close> has no result, so it produces no error value. The same holds
  for the whole system: the callers' books do not change either.
\<close>

theorem cancellation_leaves_pool:
  "((r, p') \<in> set (Get ctx_done p) \<and> snd r \<noteq> None \<longrightarrow> p' = p \<and> fst r = None \<and> ctx_done) \<and>
   ((AddCtxDone, p'') \<in> set (Add ctx_done h p) \<longrightarrow> p'' = p \<and> ctx_done) \<and>
   (ctx_done \<longrightarrow> (AddCtxDone, p) \<in> set (Add ctx_done h p)) \<and>
   (step s (OpGet ctx_done r) = Some s' \<and> snd r \<noteq> None \<longrightarrow> s' = s) \<and>
   (step s (OpAdd ctx_done h AddCtxDone) = Some s'' \<longrightarrow> s'' = s)"
proof -
  have g: "(r, p') \<in> set (Get ctx_done p) \<and> snd r \<noteq> None \<longrightarrow> p' = p \<and> fst r = None \<and> ctx_done"
    by (auto simp: Get_outcome)
  have a: "(AddCtxDone, p'') \<in> set (Add ctx_done h p) \<longrightarrow> p'' = p \<and> ctx_done"
    by (simp add: Add_outcome)
  have a': "ctx_done \<longrightarrow> (AddCtxDone, p) \<in> set (Add ctx_done h p)"
    by (simp add: Add_outcome)
  have sg: "step s (OpGet ctx_done r) = Some s' \<and> snd r \<noteq> None \<longrightarrow> s' = s"
  proof (intro impI, elim conjE)
    assume st: "step s (OpGet ctx_done r) = Some s'" and e: "snd r \<noteq> None"
    from st obtain q where q: "map_of (Get ctx_done (ppool s)) r = Some q"
      and s': "s' = s\<lparr>ppool := q\<rparr>"
      using e by (auto split: option.splits)
    from q have "(r, q) \<in> set (Get ctx_done (ppool s))" by (rule map_of_SomeD)
    with e have "q = ppool s" by (auto simp: Get_outcome)
    with s' show "s' = s" by simp
  qed
  have sa: "step s (OpAdd ctx_done h AddCtxDone) = Some s'' \<longrightarrow> s'' = s"
  proof
    assume st: "step s (OpAdd ctx_done h AddCtxDone) = Some s''"
    then obtain q where q: "map_of (Add ctx_done h (ppool s)) AddCtxDone = Some q"
      and s': "s'' = s\<lparr>ppool := q\<rparr>"
      by (auto split: option.splits)
    from q have "(AddCtxDone, q) \<in> set (Add ctx_done h (ppool s))" by (rule map_of_SomeD)
    then have "q = ppool s" by (simp add: Add_outcome)
    with s' show "s'' = s" by simp
  qed
  from g a a' sg sa show ?thesis by blast
qed

theorem cancellation_leaves_pool_witness:
  "((None, Some (Traced ErrDone)), \<lparr>pool = \<lparr>chan_cap = 1, chan_buf = [Some (5::nat)]\<rparr>\<rparr>)
      \<in> set (Get True \<lparr>pool = \<lparr>chan_cap = 1, chan_buf = [Some 5]\<rparr>\<rparr>) \<and>
   (AddCtxDone, \<lparr>pool = \<lparr>chan_cap = 1, chan_buf = [Some (5::nat)]\<rparr>\<rparr>)
      \<in> set (Add True (Some 9) \<lparr>pool = \<lparr>chan_cap = 1, chan_buf = [Some 5]\<rparr>\<rparr>) \<and>
   step \<lparr>ppool = \<lparr>pool = \<lparr>chan_cap = 1, chan_buf = [Some (5::nat)]\<rparr>\<rparr>, held = [Some 9],
          added = 2, discarded = 0\<rparr> (OpGet True (None, Some (Traced ErrDone)))
     = Some \<lparr>ppool = \<lparr>pool = \<lparr>chan_cap = 1, chan_buf = [Some 5]\<rparr>\<rparr>, held = [Some 9],
          added = 2, discarded = 0\<rparr> \<and>
   step \<lparr>ppool = \<lparr>pool = \<lparr>chan_cap = 1, chan_buf = [Some (5::nat)]\<rparr>\<rparr>, held = [Some 9],
          added = 2, discarded = 0\<rparr> (OpAdd True (Some 9) AddCtxDone)
     = Some \<lparr>ppool = \<lparr>pool = \<lparr>chan_cap = 1, chan_buf = [Some 5]\<rparr>\<rparr>, held = [Some 9],
          added = 2, discarded = 0\<rparr>"
  using cancellation_leaves_pool [of "(None, Some (Traced ErrDone))"
      "\<lparr>pool = \<lparr>chan_cap = 1, chan_buf = [Some (5::nat)]\<rparr>\<rparr>" True
      "\<lparr>pool = \<lparr>chan_cap = 1, chan_buf = [Some (5::nat)]\<rparr>\<rparr>"
      "\<lparr>pool = \<lparr>chan_cap = 1, chan_buf = [Some (5::nat)]\<rparr>\<rparr>" "Some 9"
      "\<lparr>ppool = \<lparr>pool = \<lparr>chan_cap = 1, chan_buf = [Some (5::nat)]\<rparr>\<rparr>, held = [Some 9],
          added = 2, discarded = 0\<rparr>"
      "\<lparr>ppool = \<lparr>pool = \<lparr>chan_cap = 1, chan_buf = [Some (5::nat)]\<rparr>\<rparr>, held = [Some 9],
          added = 2, discarded = 0\<rparr>"
      "\<lparr>ppool = \<lparr>pool = \<lparr>chan_cap = 1, chan_buf = [Some (5::nat)]\<rparr>\<rparr>, held = [Some 9],
          added = 2, discarded = 0\<rparr>"]
  by (simp add: Get_def Add_def tracerr_Wrap_def)

text \<open>
  C5, as stated, fails: with the signal already fired, a \<open>Get\<close> on a pool with a client
  available may return that client, and an \<open>Add\<close> on a pool with room may store its
  client; the \<open>select\<close> gives the signal no priority.
\<close>

theorem fired_signal_counterexample:
  "Get True \<lparr>pool = \<lparr>chan_cap = 1, chan_buf = [Some (7::nat)]\<rparr>\<rparr> =
     [((None, Some (Traced ErrDone)), \<lparr>pool = \<lparr>chan_cap = 1, chan_buf = [Some 7]\<rparr>\<rparr>),
      ((Some 7, None), \<lparr>pool = \<lparr>chan_cap = 1, chan_buf = []\<rparr>\<rparr>)] \<and>
   Add True (Some (7::nat)) \<lparr>pool = \<lparr>chan_cap = 1, chan_buf = []\<rparr>\<rparr> =
     [(AddSent, \<lparr>pool = \<lparr>chan_cap = 1, chan_buf = [Some 7]\<rparr>\<rparr>),
      (AddCtxDone, \<lparr>pool = \<lparr>chan_cap = 1, chan_buf = []\<rparr>\<rparr>)]"
  by (simp add: Get_def Add_def tracerr_Wrap_def chan_send_def)

text \<open>
  C5, amended. With the signal already fired, \<open>Get\<close> and \<open>Add\<close> never block and the
  cancelled result, which leaves the pool unchanged, is always possible; it is the only
  result of \<open>Get\<close> on an empty buffer and of \<open>Add\<close> on a full buffer.
\<close>

theorem fired_signal_never_blocks:
  "ctx_done \<Longrightarrow>
   Get ctx_done p \<noteq> [] \<and> ((None, tracerr_Wrap (Some ErrDone)), p) \<in> set (Get ctx_done p) \<and>
   Add ctx_done h p \<noteq> [] \<and> (AddCtxDone, p) \<in> set (Add ctx_done h p) \<and>
   (chan_buf (pool p) = [] \<longrightarrow> Get ctx_done p = [((None, tracerr_Wrap (Some ErrDone)), p)]) \<and>
   (chan_cap (pool p) \<le> length (chan_buf (pool p)) \<longrightarrow> Add ctx_done h p = [(AddCtxDone, p)])"
  by (simp add: Get_def Add_def)

theorem fired_signal_never_blocks_witness:
  "Get True \<lparr>pool = \<lparr>chan_cap = 1, chan_buf = ([] :: nat option list)\<rparr>\<rparr> =
     [((None, Some (Traced ErrDone)), \<lparr>pool = \<lparr>chan_cap = 1, chan_buf = []\<rparr>\<rparr>)] \<and>
   Add True (Some 8) \<lparr>pool = \<lparr>chan_cap = 1, chan_buf = [Some (7::nat)]\<rparr>\<rparr> =
     [(AddCtxDone, \<lparr>pool = \<lparr>chan_cap = 1, chan_buf = [Some 7]\<rparr>\<rparr>)]"
  using fired_signal_never_blocks [of True
      "\<lparr>pool = \<lparr>chan_cap = 1, chan_buf = ([] :: nat option list)\<rparr>\<rparr>" "Some 8"]
    fired_signal_never_blocks [of True
      "\<lparr>pool = \<lparr>chan_cap = 1, chan_buf = [Some (7::nat)]\<rparr>\<rparr>" "Some 8"]
  by (simp add: tracerr_Wrap_def)

text \<open>
  C6. Every non-nil error returned by \<open>Get\<close> is the wrapped \<open>ErrDone\<close>, which
  \<open>IsErrDone\<close> recognises; a handoff returns a nil error; \<open>Add\<close> and \<open>NewProversPool\<close>
  return no error at all (their types have none). \<open>IsErrDone\<close> tells this error from nil
  and from another error, wrapped or not.
\<close>

theorem Get_error_is_ErrDone:
  "((r, p') \<in> set (Get ctx_done p) \<and> snd r \<noteq> None \<longrightarrow>
      snd r = tracerr_Wrap (Some ErrDone) \<and> IsErrDone (snd r)) \<and>
   (handoff h p = Some (r, p') \<longrightarrow> snd r = None) \<and>
   \<not> IsErrDone None \<and> \<not> IsErrDone (Some ErrTODO) \<and> \<not> IsErrDone (tracerr_Wrap (Some ErrTODO))"
  by (auto simp: Get_outcome Wrap_ErrDone IsErrDone_def tracerr_Unwrap_def tracerr_Wrap_def
      handoff_def split: if_splits)

theorem Get_error_is_ErrDone_witness:
  "((None, Some (Traced ErrDone)), \<lparr>pool = \<lparr>chan_cap = 1, chan_buf = [Some (5::nat)]\<rparr>\<rparr>)
      \<in> set (Get True \<lparr>pool = \<lparr>chan_cap = 1, chan_buf = [Some 5]\<rparr>\<rparr>) \<and>
   IsErrDone (Some (Traced ErrDone)) \<and>
   handoff (Some (5::nat)) \<lparr>pool = \<lparr>chan_cap = 0, chan_buf = []\<rparr>\<rparr>
     = Some ((Some 5, None), \<lparr>pool = \<lparr>chan_cap = 0, chan_buf = []\<rparr>\<rparr>)"
  using Get_error_is_ErrDone [of "(None, Some (Traced ErrDone))"
      "\<lparr>pool = \<lparr>chan_cap = 1, chan_buf = [Some (5::nat)]\<rparr>\<rparr>" True
      "\<lparr>pool = \<lparr>chan_cap = 1, chan_buf = [Some (5::nat)]\<rparr>\<rparr>" "Some 5"]
  by (simp add: Get_def tracerr_Wrap_def handoff_def)

text \<open>
  C7. In a pool of capacity \<open>n\<close>, after \<open>k \<le> n\<close> clients are added one after the other
  with no \<open>Get\<close> in between and no cancellation, \<open>k\<close> calls of \<open>Get\<close> all return,
  and what they return is those clients in the order in which they were added, each with
  a nil error.
\<close>

theorem pool_is_fifo:
  assumes "NewProversPool n = Inr p0" and "int (length hs) \<le> n"
  shows "(\<exists>s. exec (init p0) (map (\<lambda>h. OpAdd False h AddSent) hs @
                               map (\<lambda>h. OpGet False (h, None)) hs) = Some s \<and>
              available s = []) \<and>
         (\<forall>rs s. length rs = length hs \<and>
              exec (init p0) (map (\<lambda>h. OpAdd False h AddSent) hs @ map (OpGet False) rs) = Some s
              \<longrightarrow> rs = map (\<lambda>h. (h, None)) hs)"
proof -
  from assms have b: "length (available (init p0)) + length hs \<le> capacity (init p0)"
    by (auto simp: NewProversPool_Inr init_def)
  from assms have e: "available (init p0) = []"
    by (auto simp: NewProversPool_Inr init_def)
  from exec_adds [OF b] e obtain t where
    t: "exec (init p0) (map (\<lambda>h. OpAdd False h AddSent) hs) = Some t" and av: "available t = hs"
    by auto
  from av have "available t = hs @ []" by simp
  from exec_gets [OF this] obtain s where
    "exec t (map (\<lambda>h. OpGet False (h, None)) hs) = Some s" "available s = []"
    by blast
  with t have 1: "\<exists>s. exec (init p0) (map (\<lambda>h. OpAdd False h AddSent) hs @
                               map (\<lambda>h. OpGet False (h, None)) hs) = Some s \<and> available s = []"
    by (simp add: exec_append)
  have 2: "rs = map (\<lambda>h. (h, None)) hs"
    if l: "length rs = length hs"
      and x: "exec (init p0) (map (\<lambda>h. OpAdd False h AddSent) hs @ map (OpGet False) rs) = Some s"
    for rs s
  proof -
    from x t have "exec t (map (OpGet False) rs) = Some s" by (simp add: exec_append)
    from exec_gets_results [OF this] av l show ?thesis by simp
  qed
  from 1 2 show ?thesis by blast
qed

theorem pool_is_fifo_witness:
  "(NewProversPool 2 :: panic + nat ProversPool) = Inr \<lparr>pool = \<lparr>chan_cap = 2, chan_buf = []\<rparr>\<rparr> \<and>
   int (length [Some (1::nat), Some 2]) \<le> 2 \<and>
   exec (init \<lparr>pool = \<lparr>chan_cap = 2, chan_buf = []\<rparr>\<rparr>)
      [OpAdd False (Some (1::nat)) AddSent, OpAdd False (Some 2) AddSent,
       OpGet False (Some 1, None), OpGet False (Some 2, None)]
     = Some \<lparr>ppool = \<lparr>pool = \<lparr>chan_cap = 2, chan_buf = []\<rparr>\<rparr>, held = [Some 2, Some 1],
             added = 2, discarded = 0\<rparr> \<and>
   exec (init \<lparr>pool = \<lparr>chan_cap = 2, chan_buf = []\<rparr>\<rparr>)
      [OpAdd False (Some (1::nat)) AddSent, OpAdd False (Some 2) AddSent,
       OpGet False (Some 2, None), OpGet False (Some 1, None)] = None"
proof -
  let ?P = "\<lparr>pool = \<lparr>chan_cap = 2, chan_buf = []\<rparr>\<rparr> :: nat ProversPool"
  have n: "NewProversPool 2 = Inr ?P"
    by (simp add: NewProversPool_def make_chan_def maxAlloc_def hchanSize_def client_size_def)
  have l: "int (length [Some (1::nat), Some 2]) \<le> 2" by simp
  have x: "exec (init ?P)
      [OpAdd False (Some (1::nat)) AddSent, OpAdd False (Some 2) AddSent,
       OpGet False (Some 1, None), OpGet False (Some 2, None)]
     = Some \<lparr>ppool = \<lparr>pool = \<lparr>chan_cap = 2, chan_buf = []\<rparr>\<rparr>, held = [Some 2, Some 1],
             added = 2, discarded = 0\<rparr>"
    by (simp add: init_def Add_def Get_def chan_send_def put_back_def)
  have u: "length rs = length [Some (1::nat), Some 2] \<and>
       exec (init ?P) (map (\<lambda>h. OpAdd False h AddSent) [Some 1, Some 2] @ map (OpGet False) rs)
         = Some s \<longrightarrow> rs = map (\<lambda>h. (h, None)) [Some 1, Some 2]" for rs s
    using pool_is_fifo [OF n l] by blast
  have y: "exec (init ?P)
      [OpAdd False (Some (1::nat)) AddSent, OpAdd False (Some 2) AddSent,
       OpGet False (Some 2, None), OpGet False (Some 1, None)] = None"
  proof (cases "exec (init ?P)
      [OpAdd False (Some (1::nat)) AddSent, OpAdd False (Some 2) AddSent,
       OpGet False (Some 2, None), OpGet False (Some 1, None)]")
    case None
    then show ?thesis .
  next
    case (Some s)
    with u [of "[(Some 2, None), (Some 1, None)]" s] have False
      by (simp del: exec.simps)
    then show ?thesis ..
  qed
  from n l x y show ?thesis by (intro conjI)
qed

text \<open>
  C8. A pool built with capacity \<open>n\<close> starts with its buffer within that capacity; every
  step (an \<open>Add\<close>, a \<open>Get\<close>, a cancellation of either, a handoff, a discard) keeps the
  number of clients available within the capacity and leaves the capacity as it was, and
  so does every run.
\<close>

theorem available_within_capacity:
  "(NewProversPool n = Inr p0 \<longrightarrow>
      length (available (init p0)) \<le> capacity (init p0) \<and> int (capacity (init p0)) = n) \<and>
   (length (available s) \<le> capacity s \<and> step s e = Some s' \<longrightarrow>
      length (available s') \<le> capacity s' \<and> capacity s' = capacity s) \<and>
   (length (available s) \<le> capacity s \<and> exec s tr = Some s'' \<longrightarrow>
      length (available s'') \<le> capacity s'' \<and> capacity s'' = capacity s)"
proof -
  have 1: "NewProversPool n = Inr p0 \<longrightarrow>
      length (available (init p0)) \<le> capacity (init p0) \<and> int (capacity (init p0)) = n"
    by (auto simp: NewProversPool_Inr init_def)
  from 1 step_bounded [of s e s'] exec_bounded [of s tr s''] show ?thesis by blast
qed

theorem available_within_capacity_witness:
  "(NewProversPool 1 :: panic + nat ProversPool) = Inr \<lparr>pool = \<lparr>chan_cap = 1, chan_buf = []\<rparr>\<rparr> \<and>
   length (available (init \<lparr>pool = \<lparr>chan_cap = 1, chan_buf = ([] :: nat option list)\<rparr>\<rparr>))
     \<le> capacity (init \<lparr>pool = \<lparr>chan_cap = 1, chan_buf = ([] :: nat option list)\<rparr>\<rparr>) \<and>
   step (init \<lparr>pool = \<lparr>chan_cap = 1, chan_buf = []\<rparr>\<rparr>) (OpAdd False (Some (1::nat)) AddSent)
     = Some \<lparr>ppool = \<lparr>pool = \<lparr>chan_cap = 1, chan_buf = [Some 1]\<rparr>\<rparr>, held = [],
             added = 1, discarded = 0\<rparr> \<and>
   exec (init \<lparr>pool = \<lparr>chan_cap = 1, chan_buf = []\<rparr>\<rparr>)
      [OpAdd False (Some (1::nat)) AddSent, OpAdd True (Some 2) AddCtxDone,
       OpGet False (Some 1, None)]
     = Some \<lparr>ppool = \<lparr>pool = \<lparr>chan_cap = 1, chan_buf = []\<rparr>\<rparr>, held = [Some 1],
             added = 1, discarded = 0\<rparr> \<and>
   exec (init \<lparr>pool = \<lparr>chan_cap = 1, chan_buf = []\<rparr>\<rparr>)
      [OpAdd False (Some (1::nat)) AddSent, OpAdd False (Some 2) AddSent] = None"
proof -
  let ?P = "\<lparr>pool = \<lparr>chan_cap = 1, chan_buf = []\<rparr>\<rparr> :: nat ProversPool"
  let ?s' = "\<lparr>ppool = \<lparr>pool = \<lparr>chan_cap = 1, chan_buf = [Some (1::nat)]\<rparr>\<rparr>, held = [],
             added = 1, discarded = 0\<rparr>"
  let ?s'' = "\<lparr>ppool = \<lparr>pool = \<lparr>chan_cap = 1, chan_buf = []\<rparr>\<rparr>, held = [Some (1::nat)],
             added = 1, discarded = 0\<rparr>"
  have n: "NewProversPool 1 = Inr ?P"
    by (simp add: NewProversPool_def make_chan_def maxAlloc_def hchanSize_def client_size_def)
  have st: "step (init ?P) (OpAdd False (Some 1) AddSent) = Some ?s'"
    by (simp add: init_def Add_def chan_send_def put_back_def)
  have ex: "exec (init ?P) [OpAdd False (Some 1) AddSent, OpAdd True (Some 2) AddCtxDone,
       OpGet False (Some 1, None)] = Some ?s''"
    by (simp add: init_def Add_def Get_def chan_send_def put_back_def)
  have no: "exec (init ?P) [OpAdd False (Some 1) AddSent, OpAdd False (Some 2) AddSent] = None"
    by (simp add: init_def Add_def chan_send_def put_back_def)
  from available_within_capacity [of 1 ?P "init ?P" "OpAdd False (Some 1) AddSent" ?s'
      "[OpAdd False (Some 1) AddSent, OpAdd True (Some 2) AddCtxDone, OpGet False (Some 1, None)]"
      ?s''] n
  have "length (available (init ?P)) \<le> capacity (init ?P)" by blast
  with n st ex no show ?thesis by (intro conjI)
qed

text \<open>
  C9, as stated, fails: a nil client can be added, and \<open>Get\<close> then returns it with a
  nil error, so neither result is non-nil.
\<close>

theorem Get_nil_handle_counterexample:
  "(NewProversPool 1 :: panic + nat ProversPool) = Inr \<lparr>pool = \<lparr>chan_cap = 1, chan_buf = []\<rparr>\<rparr> \<and>
   Add False None \<lparr>pool = \<lparr>chan_cap = 1, chan_buf = ([] :: nat option list)\<rparr>\<rparr> =
     [(AddSent, \<lparr>pool = \<lparr>chan_cap = 1, chan_buf = [None]\<rparr>\<rparr>)] \<and>
   Get False \<lparr>pool = \<lparr>chan_cap = 1, chan_buf = [None :: nat option]\<rparr>\<rparr> =
     [((None, None), \<lparr>pool = \<lparr>chan_cap = 1, chan_buf = []\<rparr>\<rparr>)]"
  by (simp add: NewProversPool_def make_chan_def maxAlloc_def hchanSize_def client_size_def Add_def Get_def chan_send_def)

text \<open>
  C9, amended. A call of \<open>Get\<close> returns through one of its two cases or through a handoff.
  Every result of the definition \<open>Get\<close> is either the client taken from the head of the
  buffer with a nil error, or the nil client with a non-nil error and the pool unchanged; a
  handoff returns the client of the \<open>Add\<close> with a nil error. So in every run, whatever the
  capacity, each result returned by a \<open>Get\<close> is a client that was delivered with a nil
  error, or the nil client with a non-nil error; never a non-nil client with a non-nil
  error. When no nil client was in the buffer at the start and none is sent into the pool
  during the run (into the buffer or by handoff), exactly one of the two results is
  non-nil.
\<close>

theorem Get_handle_or_error:
  "((rq, p') \<in> set (Get ctx_done p) \<longrightarrow>
      (snd rq = None \<and> chan_buf (pool p) = fst rq # chan_buf (pool p')) \<or>
      (fst rq = None \<and> snd rq \<noteq> None \<and> p' = p)) \<and>
   (handoff h q = Some (rh, q') \<longrightarrow> rh = (h, None) \<and> q' = q \<and> chan_buf (pool q) = []) \<and>
   (exec s tr = Some s' \<and> r \<in> set (get_results tr) \<longrightarrow>
      ((snd r = None \<and> fst r \<in> set (received tr)) \<or> (fst r = None \<and> snd r \<noteq> None)) \<and>
      \<not> (fst r \<noteq> None \<and> snd r \<noteq> None) \<and>
      (None \<notin> set (available s) \<and> None \<notin> set (sent tr) \<longrightarrow>
         (fst r = None) = (snd r \<noteq> None)))"
proof -
  have 1: "(rq, p') \<in> set (Get ctx_done p) \<longrightarrow>
      (snd rq = None \<and> chan_buf (pool p) = fst rq # chan_buf (pool p')) \<or>
      (fst rq = None \<and> snd rq \<noteq> None \<and> p' = p)"
    by (auto simp: Get_outcome)
  have 2: "handoff h q = Some (rh, q') \<longrightarrow> rh = (h, None) \<and> q' = q \<and> chan_buf (pool q) = []"
    by (auto simp: handoff_def split: if_splits)
  have 3: "((snd r = None \<and> fst r \<in> set (received tr)) \<or> (fst r = None \<and> snd r \<noteq> None)) \<and>
      \<not> (fst r \<noteq> None \<and> snd r \<noteq> None) \<and>
      (None \<notin> set (available s) \<and> None \<notin> set (sent tr) \<longrightarrow>
         (fst r = None) = (snd r \<noteq> None))"
    if x: "exec s tr = Some s'" and m: "r \<in> set (get_results tr)"
  proof -
    from get_results_shape [OF x m]
    have sh: "r = (None, Some (Traced ErrDone)) \<or> (snd r = None \<and> fst r \<in> set (received tr))" .
    have "fst r \<noteq> None"
      if "snd r = None" and "None \<notin> set (available s)" and "None \<notin> set (sent tr)"
    proof -
      from sh that(1) have "fst r \<in> set (received tr)" by auto
      with received_from_sent [OF x] have "fst r \<in> set (available s) \<union> set (sent tr)" by blast
      with that(2,3) show ?thesis by (cases "fst r") auto
    qed
    with sh show ?thesis by auto
  qed
  from 1 2 3 show ?thesis by blast
qed

theorem Get_handle_or_error_witness:
  "((Some (4::nat), None), \<lparr>pool = \<lparr>chan_cap = 1, chan_buf = []\<rparr>\<rparr>)
      \<in> set (Get True \<lparr>pool = \<lparr>chan_cap = 1, chan_buf = [Some 4]\<rparr>\<rparr>) \<and>
   handoff (Some (4::nat)) \<lparr>pool = \<lparr>chan_cap = 0, chan_buf = []\<rparr>\<rparr>
     = Some ((Some 4, None), \<lparr>pool = \<lparr>chan_cap = 0, chan_buf = []\<rparr>\<rparr>) \<and>
   exec (init \<lparr>pool = \<lparr>chan_cap = 0, chan_buf = []\<rparr>\<rparr>)
      [OpHandoff (Some (4::nat)), OpGet True (None, Some (Traced ErrDone))]
     = Some \<lparr>ppool = \<lparr>pool = \<lparr>chan_cap = 0, chan_buf = []\<rparr>\<rparr>, held = [Some 4],
             added = 1, discarded = 0\<rparr> \<and>
   (Some (4::nat), None) \<in> set (get_results
      [OpHandoff (Some (4::nat)), OpGet True (None, Some (Traced ErrDone))]) \<and>
   None \<notin> set (available (init \<lparr>pool = \<lparr>chan_cap = 0, chan_buf = ([] :: nat option list)\<rparr>\<rparr>)) \<and>
   None \<notin> set (sent [OpHandoff (Some (4::nat)), OpGet True (None, Some (Traced ErrDone))]) \<and>
   Some (4::nat) \<in> set (received
      [OpHandoff (Some (4::nat)), OpGet True (None, Some (Traced ErrDone))])"
proof -
  let ?P = "\<lparr>pool = \<lparr>chan_cap = 0, chan_buf = []\<rparr>\<rparr> :: nat ProversPool"
  let ?Q = "\<lparr>pool = \<lparr>chan_cap = 1, chan_buf = [Some 4]\<rparr>\<rparr> :: nat ProversPool"
  let ?tr = "[OpHandoff (Some (4::nat)), OpGet True (None, Some (Traced ErrDone))]"
  let ?s' = "\<lparr>ppool = ?P, held = [Some (4::nat)], added = 1, discarded = 0\<rparr>"
  have g: "((Some 4, None), \<lparr>pool = \<lparr>chan_cap = 1, chan_buf = []\<rparr>\<rparr>) \<in> set (Get True ?Q)"
    by (simp add: Get_def)
  have h: "handoff (Some 4) ?P = Some ((Some 4, None), ?P)"
    by (simp add: handoff_def)
  have x: "exec (init ?P) ?tr = Some ?s'"
    by (simp add: init_def Get_def handoff_def put_back_def tracerr_Wrap_def)
  have m: "(Some 4, None) \<in> set (get_results ?tr)" by simp
  have a: "None \<notin> set (available (init ?P))" by (simp add: init_def)
  have b: "None \<notin> set (sent ?tr)" by simp
  from Get_handle_or_error [where rq = "(Some 4, None)"
      and p' = "\<lparr>pool = \<lparr>chan_cap = 1, chan_buf = []\<rparr>\<rparr>" and ctx_done = True and p = ?Q
      and h = "Some 4" and q = ?P and rh = "(Some 4, None)" and q' = ?P
      and s = "init ?P" and tr = ?tr and s' = ?s' and r = "(Some 4, None)"] x m
  have "Some (4::nat) \<in> set (received ?tr)" by simp
  with g h x m a b show ?thesis by (intro conjI)
qed




end
